theory Spec2Isabelle
  imports Main "HOL-Library.Char_ord" "HOL-Library.List_Lexorder" "HOL-Library.AList"
begin

section \<open>The slug generator (timetracker/slugify.py)\<close>

text \<open>
  Python strings are modelled as \<^typ>\<open>string\<close>, one \<^typ>\<open>char\<close> per character.
  \<^verbatim>\<open>SLUGIFY_RE = re.compile(r"([^A-Za-z0-9]+)")\<close> matches maximal runs of characters outside
  the class \<^verbatim>\<open>A-Za-z0-9\<close>; \<open>is_alnum\<close> is that class, by character code.
\<close>

definition is_alnum :: "char \<Rightarrow> bool" where
  "is_alnum c = (let n = (of_char c :: nat) in
     (65 \<le> n \<and> n \<le> 90) \<or> (97 \<le> n \<and> n \<le> 122) \<or> (48 \<le> n \<and> n \<le> 57))"

text \<open>
  \<^verbatim>\<open>RE.sub("-", s)\<close> for a pattern \<^verbatim>\<open>[^...]+\<close>: scanning left to right, a character of the
  class \<open>keep\<close> is copied; any other character starts a match, which extends over the whole
  run of characters outside the class and is replaced by one dash. The class is a parameter
  so that the pattern of the source and the pattern its documentation describes can both be
  written down; \<open>slugify\<close> instantiates it with \<open>is_alnum\<close>, as \<^verbatim>\<open>SLUGIFY_RE\<close> does.
\<close>

function re_sub_dash :: "(char \<Rightarrow> bool) \<Rightarrow> string \<Rightarrow> string" where
  "re_sub_dash keep [] = []"
| "re_sub_dash keep (c # cs) =
     (if keep c then c # re_sub_dash keep cs
      else CHR ''-'' # re_sub_dash keep (dropWhile (\<lambda>d. \<not> keep d) cs))"
  by pat_completeness auto
termination
  by (relation "measure (\<lambda>(keep, s). length s)") (auto simp: le_imp_less_Suc length_dropWhile_le)

text \<open>
  \<^verbatim>\<open>str.lower()\<close>. After the substitution every character is an ASCII letter, a digit or a
  dash, so only the ASCII letters \<^verbatim>\<open>A-Z\<close> (codes 65 to 90) are ever changed.
\<close>

definition lower_char :: "char \<Rightarrow> char" where
  "lower_char c = (let n = (of_char c :: nat) in
     if 65 \<le> n \<and> n \<le> 90 then char_of (n + 32) else c)"

text \<open>\<^verbatim>\<open>str.strip('-')\<close>: drop the leading and the trailing dashes.\<close>

definition strip_dash :: "string \<Rightarrow> string" where
  "strip_dash s = rev (dropWhile (\<lambda>c. c = CHR ''-'') (rev (dropWhile (\<lambda>c. c = CHR ''-'') s)))"

text \<open>\<^verbatim>\<open>return SLUGIFY_RE.sub("-", s).lower().strip('-')\<close>\<close>

definition slugify :: "string \<Rightarrow> string" where
  "slugify s = strip_dash (map lower_char (re_sub_dash is_alnum s))"

text \<open>
  The normalisation as the module's documentation words it ("replaces
  non-alphanumeric-or-dash characters with a single dash"): the dash belongs to the class of
  characters that are kept. Used only to compare with \<open>slugify\<close>.
\<close>

definition normalize_documented :: "string \<Rightarrow> string" where
  "normalize_documented s =
     strip_dash (map lower_char (re_sub_dash (\<lambda>c. is_alnum c \<or> c = CHR ''-'') s))"

text \<open>
  \<^verbatim>\<open>f"{count}"\<close> for the loop counter of \<^verbatim>\<open>slugify_unique\<close>, which starts at 1 and only grows:
  the decimal digits of a natural number, most significant first.
\<close>

fun str_nat :: "nat \<Rightarrow> string" where
  "str_nat n = (if n < 10 then [char_of (48 + n)] else str_nat (n div 10) @ [char_of (48 + n mod 10)])"
declare str_nat.simps [simp del]

text \<open>Shape of a slug: only class characters and dashes, and no two dashes in a row.\<close>

definition slug_char :: "char \<Rightarrow> bool" where
  "slug_char c = (is_alnum c \<or> c = CHR ''-'')"

definition no_dash_pair :: "string \<Rightarrow> bool" where
  "no_dash_pair s = successively (\<lambda>c d. \<not> (c = CHR ''-'' \<and> d = CHR ''-'')) s"

subsection \<open>Decimal rendering is injective\<close>

lemma str_nat_value: "foldl (\<lambda>a c. 10 * a + ((of_char c :: nat) - 48)) 0 (str_nat n) = n"
proof (induction n rule: str_nat.induct)
  case (1 n)
  show ?case
  proof (cases "n < 10")
    case True
    then show ?thesis by (simp add: str_nat.simps [of n])
  next
    case False
    have "(48 + n mod 10) mod 256 = 48 + n mod 10"
      by (rule mod_less) (simp add: less_le_trans [OF add_strict_left_mono [OF mod_less_divisor [of 10 n]]])
    with False 1 show ?thesis by (simp add: str_nat.simps [of n])
  qed
qed

lemma str_nat_inj: "str_nat m = str_nat n \<Longrightarrow> m = n"
  by (metis str_nat_value)

subsection \<open>The probing loop of \<^verbatim>\<open>slugify_unique\<close>\<close>

text \<open>
  \<^verbatim>\<open>
  prefix = slug = slugify(s)
  count = 1
  while slug in used:
      count += 1
      slug = f"{prefix}-{count}"
  return slug
  \<close>
  \<open>used\<close> is the list of keys of a dictionary (or any finite collection); only membership
  is asked of it. The loop state is \<open>(count, slug)\<close>. The loop ends because the candidates
  are pairwise different and \<open>used\<close> is finite: the measure counts the later candidates that
  are still in \<open>used\<close>.
\<close>

function slugify_unique_loop :: "string \<Rightarrow> string list \<Rightarrow> nat \<Rightarrow> string \<Rightarrow> string" where
  "slugify_unique_loop prefix used count slug =
     (if slug \<in> set used
      then slugify_unique_loop prefix used (count + 1) (prefix @ ''-'' @ str_nat (count + 1))
      else slug)"
  by pat_completeness auto

definition later_candidates :: "string \<Rightarrow> string list \<Rightarrow> nat \<Rightarrow> string set" where
  "later_candidates prefix used count =
     {x \<in> set used. \<exists>k > count. x = prefix @ ''-'' @ str_nat k}"

lemma later_candidates_step:
  "later_candidates prefix used (Suc count) =
     later_candidates prefix used count - {prefix @ ''-'' @ str_nat (Suc count)}"
proof (intro set_eqI iffI)
  fix x
  assume "x \<in> later_candidates prefix used (Suc count)"
  then obtain k where x: "x \<in> set used" and k: "Suc count < k" and e: "x = prefix @ ''-'' @ str_nat k"
    unfolding later_candidates_def by blast
  from k have "count < k" by simp
  with x e have "x \<in> later_candidates prefix used count"
    unfolding later_candidates_def by blast
  moreover have "x \<noteq> prefix @ ''-'' @ str_nat (Suc count)"
  proof
    assume "x = prefix @ ''-'' @ str_nat (Suc count)"
    with e have "str_nat k = str_nat (Suc count)" by simp
    then have "k = Suc count" by (rule str_nat_inj)
    with k show False by simp
  qed
  ultimately show "x \<in> later_candidates prefix used count - {prefix @ ''-'' @ str_nat (Suc count)}"
    by simp
next
  fix x
  assume a: "x \<in> later_candidates prefix used count - {prefix @ ''-'' @ str_nat (Suc count)}"
  then obtain k where x: "x \<in> set used" and k: "count < k" and e: "x = prefix @ ''-'' @ str_nat k"
    unfolding later_candidates_def by blast
  from a e have "k \<noteq> Suc count" by auto
  with k have "Suc count < k" by simp
  with x e show "x \<in> later_candidates prefix used (Suc count)"
    unfolding later_candidates_def by blast
qed

lemma later_candidates_finite: "finite (later_candidates prefix used count)"
  by (simp add: later_candidates_def)

termination slugify_unique_loop
proof (relation "measure (\<lambda>(prefix, used, count, slug).
          2 * card (later_candidates prefix used count) + (if slug \<in> set used then 1 else 0))")
  show "wf (measure (\<lambda>(prefix, used, count, slug).
          2 * card (later_candidates prefix used count) + (if slug \<in> set used then 1 else 0)))"
    by simp
next
  fix prefix :: string and used :: "string list" and count :: nat and slug :: string
  assume slug: "slug \<in> set used"
  let ?next = "prefix @ ''-'' @ str_nat (Suc count)"
  let ?A = "later_candidates prefix used count"
  let ?B = "later_candidates prefix used (Suc count)"
  have step: "?B = ?A - {?next}"
    by (rule later_candidates_step)
  have "2 * card ?B + (if ?next \<in> set used then 1 else 0) < 2 * card ?A + 1"
  proof (cases "?next \<in> set used")
    case True
    then have "?next \<in> ?A" by (auto simp: later_candidates_def)
    then have "card (?A - {?next}) < card ?A"
      by (rule card_Diff1_less [OF later_candidates_finite])
    then have "card ?B < card ?A" by (simp only: step)
    with True show ?thesis by simp
  next
    case False
    have "card (?A - {?next}) \<le> card ?A"
      by (rule card_Diff1_le)
    then have "card ?B \<le> card ?A" by (simp only: step)
    with False show ?thesis by simp
  qed
  with slug show "((prefix, used, count + 1, prefix @ ''-'' @ str_nat (count + 1)), (prefix, used, count, slug))
      \<in> measure (\<lambda>(prefix, used, count, slug).
          2 * card (later_candidates prefix used count) + (if slug \<in> set used then 1 else 0))"
    by simp
qed

declare slugify_unique_loop.simps [simp del]

definition slugify_unique :: "string \<Rightarrow> string list \<Rightarrow> string" where
  "slugify_unique s used = (let prefix = slugify s in slugify_unique_loop prefix used 1 prefix)"

subsection \<open>Properties of \<open>slugify\<close>\<close>

lemma dash_not_alnum [simp]: "\<not> is_alnum CHR ''-''"
  by (simp add: is_alnum_def)

lemma re_sub_dash_hd:
  "re_sub_dash is_alnum s \<noteq> [] \<Longrightarrow> hd (re_sub_dash is_alnum s) = CHR ''-'' \<Longrightarrow> s \<noteq> [] \<and> \<not> is_alnum (hd s)"
  by (cases s) (auto split: if_splits)

lemma re_sub_dash_chars: "\<forall>c \<in> set (re_sub_dash is_alnum s). slug_char c"
  by (induction is_alnum s rule: re_sub_dash.induct) (auto simp: slug_char_def)

lemma re_sub_dash_no_pair: "no_dash_pair (re_sub_dash is_alnum s)"
proof (induction is_alnum s rule: re_sub_dash.induct)
  case 1
  then show ?case by (simp add: no_dash_pair_def)
next
  case (2 c cs)
  show ?case
  proof (cases "is_alnum c")
    case True
    with 2 show ?thesis
      by (auto simp: no_dash_pair_def successively_Cons)
  next
    case False
    let ?r = "dropWhile (\<lambda>d. \<not> is_alnum d) cs"
    have "re_sub_dash is_alnum ?r \<noteq> [] \<Longrightarrow> hd (re_sub_dash is_alnum ?r) \<noteq> CHR ''-''"
      using re_sub_dash_hd [of ?r] hd_dropWhile [of "\<lambda>d. \<not> is_alnum d" cs] by auto
    with False 2 show ?thesis
      by (auto simp: no_dash_pair_def successively_Cons)
  qed
qed

lemma re_sub_dash_fixed:
  "\<forall>c \<in> set s. slug_char c \<Longrightarrow> no_dash_pair s \<Longrightarrow> re_sub_dash is_alnum s = s"
proof (induction s)
  case Nil
  then show ?case by simp
next
  case (Cons c cs)
  then have rest: "re_sub_dash is_alnum cs = cs"
    by (auto simp: no_dash_pair_def successively_Cons)
  show ?case
  proof (cases "is_alnum c")
    case True
    then show ?thesis using rest by simp
  next
    case False
    with Cons.prems have c: "c = CHR ''-''" by (simp add: slug_char_def)
    have "cs = [] \<or> is_alnum (hd cs)"
      using Cons.prems c by (cases cs) (auto simp: no_dash_pair_def slug_char_def)
    then have "dropWhile (\<lambda>d. \<not> is_alnum d) cs = cs"
      by (cases cs) auto
    then show ?thesis using False c rest by simp
  qed
qed

lemma lower_char_upper:
  "65 \<le> (of_char c :: nat) \<Longrightarrow> (of_char c :: nat) \<le> 90 \<Longrightarrow> (of_char (lower_char c) :: nat) = of_char c + 32"
  by (simp add: lower_char_def)

lemma lower_char_other:
  "\<not> (65 \<le> (of_char c :: nat) \<and> (of_char c :: nat) \<le> 90) \<Longrightarrow> lower_char c = c"
  by (auto simp: lower_char_def Let_def)

lemma lower_char_idem [simp]: "lower_char (lower_char c) = lower_char c"
proof (cases "65 \<le> (of_char c :: nat) \<and> (of_char c :: nat) \<le> 90")
  case True
  then have "(of_char (lower_char c) :: nat) = of_char c + 32"
    using lower_char_upper by blast
  with True have "\<not> (65 \<le> (of_char (lower_char c) :: nat) \<and> (of_char (lower_char c) :: nat) \<le> 90)"
    by linarith
  then show ?thesis by (rule lower_char_other)
next
  case False
  then show ?thesis by (simp add: lower_char_other)
qed

lemma lower_char_alnum [simp]: "is_alnum (lower_char c) = is_alnum c"
proof (cases "65 \<le> (of_char c :: nat) \<and> (of_char c :: nat) \<le> 90")
  case True
  then have e: "(of_char (lower_char c) :: nat) = of_char c + 32"
    using lower_char_upper by blast
  have "is_alnum c" using True by (simp add: is_alnum_def)
  moreover have "is_alnum (lower_char c)"
    unfolding is_alnum_def Let_def e using True by linarith
  ultimately show ?thesis by simp
next
  case False
  then show ?thesis by (simp add: lower_char_other)
qed

lemma lower_char_dash [simp]: "(lower_char c = CHR ''-'') = (c = CHR ''-'')"
proof
  assume h: "lower_char c = CHR ''-''"
  show "c = CHR ''-''"
  proof (rule ccontr)
    assume n: "c \<noteq> CHR ''-''"
    with h have "65 \<le> (of_char c :: nat) \<and> (of_char c :: nat) \<le> 90"
      using lower_char_other by metis
    then have "is_alnum c" by (simp add: is_alnum_def)
    then have "is_alnum (lower_char c)" by simp
    with h show False by simp
  qed
next
  assume "c = CHR ''-''"
  then show "lower_char c = CHR ''-''" by (simp add: lower_char_def)
qed

lemma strip_dash_set: "set (strip_dash s) \<subseteq> set s"
  unfolding strip_dash_def by (auto dest!: set_dropWhileD)

lemma no_dash_pair_dropWhile: "no_dash_pair s \<Longrightarrow> no_dash_pair (dropWhile P s)"
  unfolding no_dash_pair_def
  by (induction s) (auto simp: successively_Cons)

lemma no_dash_pair_rev: "no_dash_pair (rev s) = no_dash_pair s"
  unfolding no_dash_pair_def successively_rev
  by (rule successively_cong) auto

lemma strip_dash_no_pair: "no_dash_pair s \<Longrightarrow> no_dash_pair (strip_dash s)"
  unfolding strip_dash_def
  by (simp add: no_dash_pair_rev no_dash_pair_dropWhile)

lemma strip_dash_fixed:
  "s = [] \<or> (hd s \<noteq> CHR ''-'' \<and> last s \<noteq> CHR ''-'') \<Longrightarrow> strip_dash s = s"
proof (cases "s = []")
  case True
  then show ?thesis by (simp add: strip_dash_def)
next
  case False
  assume "s = [] \<or> (hd s \<noteq> CHR ''-'' \<and> last s \<noteq> CHR ''-'')"
  with False have h: "hd s \<noteq> CHR ''-''" and l: "last s \<noteq> CHR ''-''" by auto
  from h have a: "dropWhile (\<lambda>c. c = CHR ''-'') s = s"
    by (simp add: dropWhile_eq_self_iff)
  have "hd (rev s) \<noteq> CHR ''-''" using False l by (simp add: hd_rev)
  then have b: "dropWhile (\<lambda>c. c = CHR ''-'') (rev s) = rev s"
    by (simp add: dropWhile_eq_self_iff)
  show ?thesis by (simp add: strip_dash_def a b)
qed

lemma strip_dash_ends:
  "strip_dash s = [] \<or> (hd (strip_dash s) \<noteq> CHR ''-'' \<and> last (strip_dash s) \<noteq> CHR ''-'')"
proof (cases "strip_dash s = []")
  case True
  then show ?thesis by simp
next
  case False
  let ?P = "\<lambda>c. c = CHR ''-''"
  let ?a = "dropWhile ?P s"
  let ?t = "dropWhile ?P (rev ?a)"
  from False have t: "?t \<noteq> []" by (simp add: strip_dash_def)
  have ra: "?a \<noteq> []"
  proof
    assume e: "?a = []"
    have "?t = []" unfolding e by simp
    with t show False by blast
  qed
  have "last (strip_dash s) = hd ?t"
    using t by (simp add: strip_dash_def last_rev)
  moreover have "\<not> ?P (hd ?t)" using t by (rule hd_dropWhile)
  moreover have "hd (strip_dash s) = last ?t"
    using t by (simp add: strip_dash_def hd_rev)
  moreover have "last ?t = last (rev ?a)"
  proof -
    from t obtain x where "x \<in> set (rev ?a)" and "\<not> ?P x"
      unfolding dropWhile_eq_Nil_conv by blast
    then show ?thesis by (rule dropWhile_last)
  qed
  moreover have "last (rev ?a) = hd ?a" using ra by (simp add: last_rev)
  moreover have "\<not> ?P (hd ?a)" using ra by (rule hd_dropWhile)
  ultimately show ?thesis by simp
qed

text \<open>
  Claim C2. The claim describes a normalisation that keeps the dashes of the input and
  collapses only runs of other characters. The pattern of the source has no dash in its
  class, so a run of dashes is itself collapsed: on \<^verbatim>\<open>a--b\<close> the code returns \<^verbatim>\<open>a-b\<close>, where
  the documented normalisation returns \<^verbatim>\<open>a--b\<close>.
\<close>

theorem slugify_collapses_dashes:
  "slugify ''a--b'' = ''a-b'' \<and> normalize_documented ''a--b'' = ''a--b''"
  by (simp add: slugify_def normalize_documented_def strip_dash_def lower_char_def is_alnum_def)

text \<open>
  Claim C9. Normalisation is idempotent: slugifying a slug returns it unchanged.
\<close>

theorem slugify_idem: "slugify (slugify x) = slugify x"
proof -
  let ?u = "map lower_char (re_sub_dash is_alnum x)"
  let ?v = "slugify x"
  have v: "?v = strip_dash ?u" by (simp add: slugify_def)
  have u_chars: "\<forall>c \<in> set ?u. slug_char c \<and> lower_char c = c"
    using re_sub_dash_chars [of x] by (auto simp: slug_char_def)
  have u_pair: "no_dash_pair ?u"
    using re_sub_dash_no_pair [of x]
    unfolding no_dash_pair_def successively_map by simp
  have v_chars: "\<forall>c \<in> set ?v. slug_char c \<and> lower_char c = c"
    using u_chars strip_dash_set [of ?u] unfolding v by blast
  have v_pair: "no_dash_pair ?v"
    unfolding v using u_pair by (rule strip_dash_no_pair)
  have "re_sub_dash is_alnum ?v = ?v"
    using v_chars v_pair by (simp add: re_sub_dash_fixed)
  moreover have "map lower_char ?v = ?v"
    using v_chars by (simp add: map_idI)
  moreover have "strip_dash ?v = ?v"
    using strip_dash_ends [of ?u] unfolding v by (rule strip_dash_fixed)
  ultimately show ?thesis
    by (simp add: slugify_def [of "slugify x"])
qed


subsection \<open>Properties of \<open>slugify_unique\<close>\<close>

lemma slugify_unique_loop_result:
  "\<exists>k\<ge>count.
      slugify_unique_loop prefix used count slug =
        (if k = count then slug else prefix @ ''-'' @ str_nat k) \<and>
      slugify_unique_loop prefix used count slug \<notin> set used \<and>
      (\<forall>j. count < j \<and> j < k \<longrightarrow> prefix @ ''-'' @ str_nat j \<in> set used) \<and>
      (count < k \<longrightarrow> slug \<in> set used)"
proof (induction prefix used count slug rule: slugify_unique_loop.induct)
  case (1 prefix used count slug)
  show ?case
  proof (cases "slug \<in> set used")
    case False
    then have "slugify_unique_loop prefix used count slug = slug"
      by (simp add: slugify_unique_loop.simps [of prefix used count slug])
    with False show ?thesis by auto
  next
    case True
    let ?r = "slugify_unique_loop prefix used (count + 1) (prefix @ ''-'' @ str_nat (count + 1))"
    from True have unfold: "slugify_unique_loop prefix used count slug = ?r"
      by (simp add: slugify_unique_loop.simps [of prefix used count slug])
    from 1 [OF True] obtain k where k: "count + 1 \<le> k"
      and r: "?r = (if k = count + 1 then prefix @ ''-'' @ str_nat (count + 1) else prefix @ ''-'' @ str_nat k)"
      and free: "?r \<notin> set used"
      and below: "\<forall>j. count + 1 < j \<and> j < k \<longrightarrow> prefix @ ''-'' @ str_nat j \<in> set used"
      and first: "count + 1 < k \<longrightarrow> prefix @ ''-'' @ str_nat (count + 1) \<in> set used"
      by blast
    from r have r': "?r = prefix @ ''-'' @ str_nat k" by (simp split: if_splits)
    have all: "\<forall>j. count < j \<and> j < k \<longrightarrow> prefix @ ''-'' @ str_nat j \<in> set used"
    proof (intro allI impI)
      fix j
      assume j: "count < j \<and> j < k"
      show "prefix @ ''-'' @ str_nat j \<in> set used"
      proof (cases "j = count + 1")
        case True
        with j first show ?thesis by simp
      next
        case False
        with j have "count + 1 < j \<and> j < k" by simp
        with below show ?thesis by blast
      qed
    qed
    from k have "count \<le> k" and "k \<noteq> count" by simp_all
    with unfold r' free all True show ?thesis
      by (intro exI [of _ k]) simp
  qed
qed

lemma slugify_unique_loop_set:
  "set used = set used' \<Longrightarrow>
     slugify_unique_loop prefix used count slug = slugify_unique_loop prefix used' count slug"
proof (induction prefix used count slug rule: slugify_unique_loop.induct)
  case (1 prefix used count slug)
  show ?case
  proof (cases "slug \<in> set used")
    case False
    with 1(2) show ?thesis
      by (simp add: slugify_unique_loop.simps [of prefix _ count slug])
  next
    case True
    from 1(1) [OF True 1(2)] True 1(2) show ?thesis
      by (simp add: slugify_unique_loop.simps [of prefix _ count slug])
  qed
qed


text \<open>
  Claim C3. \<open>slugify_unique s used\<close> is \<open>slugify s\<close> when that is not in \<open>used\<close>; otherwise
  it is the candidate \<open>slugify s\<close>-\<open>k\<close> for the least \<open>k \<ge> 2\<close> whose candidate is not in \<open>used\<close>
  (all candidates from 2 up to \<open>k - 1\<close> are in \<open>used\<close>). The result is never in \<open>used\<close>; it
  depends on \<open>used\<close> only as a set; the function returns a value and nothing else, so \<open>used\<close>
  is not changed; for empty \<open>used\<close> the result is \<open>slugify s\<close>; and the two examples of the
  documentation hold.
\<close>

theorem slugify_unique_first_free:
  "(slugify s \<notin> set used \<longrightarrow> slugify_unique s used = slugify s) \<and>
   (slugify s \<in> set used \<longrightarrow>
      (\<exists>k\<ge>2. slugify_unique s used = slugify s @ ''-'' @ str_nat k \<and>
         (\<forall>j. 2 \<le> j \<and> j < k \<longrightarrow> slugify s @ ''-'' @ str_nat j \<in> set used))) \<and>
   slugify_unique s used \<notin> set used \<and>
   (set used = set used' \<longrightarrow> slugify_unique s used = slugify_unique s used') \<and>
   slugify_unique s [] = slugify s \<and>
   slugify_unique ''Hello'' [''hello''] = ''hello-2'' \<and>
   slugify_unique ''Hello'' [''hello'', ''hello-2''] = ''hello-3''"
proof -
  let ?p = "slugify s"
  have u: "slugify_unique s used = slugify_unique_loop ?p used 1 ?p"
    by (simp add: slugify_unique_def Let_def)
  obtain k where k: "1 \<le> k"
    and r: "slugify_unique s used = (if k = 1 then ?p else ?p @ ''-'' @ str_nat k)"
    and free: "slugify_unique s used \<notin> set used"
    and below: "\<forall>j. 1 < j \<and> j < k \<longrightarrow> ?p @ ''-'' @ str_nat j \<in> set used"
    and first: "1 < k \<longrightarrow> ?p \<in> set used"
    using slugify_unique_loop_result [of 1 ?p used ?p] unfolding u by blast
  have k_cases: "k = 1 \<or> 1 < k" using k by arith
  have a: "?p \<notin> set used \<longrightarrow> slugify_unique s used = ?p"
    using r first k_cases by auto
  have b: "?p \<in> set used \<longrightarrow>
      (\<exists>k\<ge>2. slugify_unique s used = ?p @ ''-'' @ str_nat k \<and>
         (\<forall>j. 2 \<le> j \<and> j < k \<longrightarrow> ?p @ ''-'' @ str_nat j \<in> set used))"
  proof
    assume m: "?p \<in> set used"
    with r free have "k \<noteq> 1" by auto
    with k have k2: "2 \<le> k" by simp
    from \<open>k \<noteq> 1\<close> r have "slugify_unique s used = ?p @ ''-'' @ str_nat k" by simp
    moreover have "\<forall>j. 2 \<le> j \<and> j < k \<longrightarrow> ?p @ ''-'' @ str_nat j \<in> set used"
      using below by auto
    ultimately show "\<exists>k\<ge>2. slugify_unique s used = ?p @ ''-'' @ str_nat k \<and>
         (\<forall>j. 2 \<le> j \<and> j < k \<longrightarrow> ?p @ ''-'' @ str_nat j \<in> set used)"
      using k2 by blast
  qed
  have c: "set used = set used' \<longrightarrow> slugify_unique s used = slugify_unique s used'"
  proof
    assume "set used = set used'"
    then show "slugify_unique s used = slugify_unique s used'"
      unfolding slugify_unique_def Let_def by (rule slugify_unique_loop_set)
  qed
  have d: "slugify_unique s [] = ?p"
    by (simp add: slugify_unique_def Let_def slugify_unique_loop.simps [of _ "[]"])
  have e: "slugify_unique ''Hello'' [''hello''] = ''hello-2''"
    by code_simp
  have f: "slugify_unique ''Hello'' [''hello'', ''hello-2''] = ''hello-3''"
    by code_simp
  from a b free c d e f show ?thesis by blast
qed

theorem slugify_unique_first_free_witness:
  "slugify ''Hello'' \<in> set [''hello'', ''hello-2''] \<and>
   slugify_unique ''Hello'' [''hello'', ''hello-2''] \<notin> set [''hello'', ''hello-2''] \<and>
   slugify ''Joel'' \<notin> set [''hello''] \<and> slugify_unique ''Joel'' [''hello''] = ''joel''"
proof -
  have a: "slugify ''Hello'' = ''hello''" by code_simp
  have b: "slugify ''Joel'' = ''joel''" by code_simp
  show ?thesis
    using slugify_unique_first_free [of "''Hello''" "[''hello'', ''hello-2'']" "[]"]
      slugify_unique_first_free [of "''Joel''" "[''hello'']" "[]"]
    by (simp add: a b)
qed

section \<open>The node model (timetracker/models.py)\<close>

text \<open>
  Categories and tasks are mutable objects that refer to each other: a category holds its
  children in a dictionary, every node holds a back-reference \<^verbatim>\<open>__parent__\<close>, and
  \<^verbatim>\<open>delete\<close> changes the parent through that back-reference. The objects therefore live
  in an explicit store: a list of objects addressed by position. A reference is an index,
  a new object is appended at the end, and objects are never removed from the store
  (an object that is no longer reachable simply stays unused).
\<close>

type_synonym ref = nat

text \<open>
  The values a caller may pass for \<^verbatim>\<open>mins\<close>: \<^verbatim>\<open>None\<close>, an \<^verbatim>\<open>int\<close> (Python's
  unbounded integers; a \<^verbatim>\<open>bool\<close> is an \<^verbatim>\<open>int\<close> too and is the integer 0 or 1), or any
  other value, kept by its printed form.
\<close>

datatype pyval = PyNone | PyInt int | PyOther string

text \<open>
  The exceptions of the source, named after what they report:
  \<^item> \<open>DuplicateId\<close>: \<^verbatim>\<open>KeyError("Key '{}' already in category")\<close>;
  \<^item> \<open>InvalidDuration\<close>: \<^verbatim>\<open>ValueError("Task mins must be None or an integer")\<close>;
  \<^item> \<open>NoParent\<close>: \<^verbatim>\<open>Exception("Cannot delete category without parent")\<close> and the same for a task;
  \<^item> \<open>NotEmpty\<close>: \<^verbatim>\<open>Exception("Cannot delete Category {} without deleting children")\<close>;
  \<^item> \<open>KeyError\<close>: \<^verbatim>\<open>del d[k]\<close> for a key that is not in \<^verbatim>\<open>d\<close>;
  \<^item> \<open>TypeError\<close>: a call with a keyword argument the method does not have, or item
    deletion on an object that is not a mapping;
  \<^item> \<open>AttributeError\<close>: a method called on an object whose class does not define it;
  \<^item> \<open>CannotDeleteRoot\<close>: \<^verbatim>\<open>ValueError("Cannot delete root")\<close> of the command shell.
\<close>

datatype error =
    DuplicateId | InvalidDuration | NoParent | NotEmpty
  | KeyError | TypeError | AttributeError | CannotDeleteRoot

text \<open>
  \<^verbatim>\<open>class Category(PersistentMapping)\<close>: the attributes set by \<^verbatim>\<open>__init__\<close> and the
  dictionary the class inherits. A Python dictionary keeps its keys distinct and in insertion
  order; it is an association list here, written to by \<^const>\<open>AList.update\<close> (replace in
  place, or append) and \<^const>\<open>AList.delete\<close>.
\<close>

record category =
  cat_parent :: "ref option"
  cat_id :: string
  cat_title :: string
  cat_description :: string
  cat_data :: "(string \<times> ref) list"

text \<open>\<^verbatim>\<open>class Task(Persistent)\<close>; \<open>task_mins\<close> is \<open>None\<close> for an unset duration.\<close>

record task =
  task_parent :: "ref option"
  task_id :: string
  task_title :: string
  task_description :: string
  task_mins :: "int option"

text \<open>
  An object of the store is a category, a task, or the database root: a plain persistent
  mapping with neither id nor parent, which the command shell passes as the parent of the
  top-level categories.
\<close>

datatype obj = Category category | Task task | RootMapping "(string \<times> ref) list"

type_synonym heap = "obj list"

text \<open>Reading the store; every reference the program holds is below the length of the store.\<close>

definition obj_at :: "heap \<Rightarrow> ref \<Rightarrow> obj option" where
  "obj_at h r = (if r < length h then Some (h ! r) else None)"

text \<open>\<^verbatim>\<open>isinstance(mins, int)\<close>\<close>

definition isinstance_int :: "pyval \<Rightarrow> bool" where
  "isinstance_int v = (case v of PyInt n \<Rightarrow> True | _ \<Rightarrow> False)"

text \<open>\<^verbatim>\<open>Category.__init__(self, id, title, description="", parent=None)\<close>\<close>

definition Category_init :: "string \<Rightarrow> string \<Rightarrow> string \<Rightarrow> ref option \<Rightarrow> category" where
  "Category_init i title description parent =
     \<lparr>cat_parent = parent, cat_id = i, cat_title = title,
      cat_description = description, cat_data = []\<rparr>"

text \<open>
  \<^verbatim>\<open>Task.__init__(self, id, title, description="", mins=None, parent=None)\<close>:
  \<^verbatim>\<open>
  if mins is not None and not isinstance(mins, int):
      raise ValueError("Task mins must be None or an integer")
  \<close>
\<close>

definition Task_init :: "string \<Rightarrow> string \<Rightarrow> string \<Rightarrow> pyval \<Rightarrow> ref option \<Rightarrow> error + task" where
  "Task_init i title description mins parent =
     (if mins \<noteq> PyNone \<and> \<not> isinstance_int mins then Inl InvalidDuration
      else Inr \<lparr>task_parent = parent, task_id = i, task_title = title,
                task_description = description,
                task_mins = (case mins of PyInt n \<Rightarrow> Some n | _ \<Rightarrow> None)\<rparr>)"

text \<open>\<^verbatim>\<open>self.keys()\<close>\<close>

definition keys :: "(string \<times> ref) list \<Rightarrow> string list" where
  "keys d = map fst d"

text \<open>
  The first statement of both \<^verbatim>\<open>add_task\<close> and \<^verbatim>\<open>add_category\<close>:
  \<^verbatim>\<open>
  if id is not None:
      if id in self:
          raise KeyError("Key '{}' already in category".format(id))
  else:
      id = slugify_unique(title, self.keys())
  \<close>
\<close>

definition choose_id :: "category \<Rightarrow> string \<Rightarrow> string option \<Rightarrow> error + string" where
  "choose_id c title ident =
     (case ident of
        Some i \<Rightarrow> if i \<in> set (keys (cat_data c)) then Inl DuplicateId else Inr i
      | None \<Rightarrow> Inr (slugify_unique title (keys (cat_data c))))"

text \<open>
  The last statements of both methods: the new object is allocated and
  \<^verbatim>\<open>self[id] = child\<close> stores its reference in the receiver's dictionary.
\<close>

definition store_child :: "ref \<Rightarrow> category \<Rightarrow> string \<Rightarrow> obj \<Rightarrow> heap \<Rightarrow> ref \<times> heap" where
  "store_child self c i child h =
     (let r = length h
      in (r, (h @ [child])[self := Category (c\<lparr>cat_data := AList.update i r (cat_data c)\<rparr>)]))"

text \<open>
  \<^verbatim>\<open>Category.add_task(self, title, description="", id=None, mins=None)\<close>. Every operation
  takes the store and returns its outcome together with the store it leaves behind; an
  exception leaves the store as it was when it was raised.
\<close>

definition add_task ::
  "ref \<Rightarrow> string \<Rightarrow> string \<Rightarrow> string option \<Rightarrow> pyval \<Rightarrow> heap \<Rightarrow> (error + ref) \<times> heap" where
  "add_task self title description ident mins h =
     (case obj_at h self of
        Some (Category c) \<Rightarrow>
          (case choose_id c title ident of
             Inl e \<Rightarrow> (Inl e, h)
           | Inr i \<Rightarrow>
               (case Task_init i title description mins (Some self) of
                  Inl e \<Rightarrow> (Inl e, h)
                | Inr t \<Rightarrow> (case store_child self c i (Task t) h of (r, h') \<Rightarrow> (Inr r, h'))))
      | _ \<Rightarrow> (Inl AttributeError, h))"

text \<open>\<^verbatim>\<open>Category.add_category(self, title, description="", id=None)\<close>\<close>

definition add_category ::
  "ref \<Rightarrow> string \<Rightarrow> string \<Rightarrow> string option \<Rightarrow> heap \<Rightarrow> (error + ref) \<times> heap" where
  "add_category self title description ident h =
     (case obj_at h self of
        Some (Category c) \<Rightarrow>
          (case choose_id c title ident of
             Inl e \<Rightarrow> (Inl e, h)
           | Inr i \<Rightarrow>
               (case store_child self c i (Category (Category_init i title description (Some self))) h of
                  (r, h') \<Rightarrow> (Inr r, h')))
      | _ \<Rightarrow> (Inl AttributeError, h))"

text \<open>
  \<^verbatim>\<open>sorted(list(self.items()))\<close>: the pairs are compared by key first, and the keys of a
  dictionary are distinct, so the values are never compared. Strings are ordered
  lexicographically by character code.
\<close>

definition sorted_items :: "(string \<times> ref) list \<Rightarrow> (string \<times> ref) list" where
  "sorted_items d = sort_key fst d"

text \<open>The values yielded by a generator, in order, when every part of it returns.\<close>

definition concat_results :: "'a list option list \<Rightarrow> 'a list option" where
  "concat_results rs = map_option concat (those rs)"

text \<open>
  \<^verbatim>\<open>
  def categories(self, recurse=True):
      for k, v in sorted(list(self.items())):
          if isinstance(v, Category):
              yield v
              if recurse:
                  yield from v.categories(True)
  \<close>
  The recursion follows references through the store, so it is bounded by fuel: \<open>None\<close>
  means that the fuel ran out (or that the receiver is not a category, on which the method
  does not exist). The generator is modelled by the list of references it yields.
\<close>

fun categories :: "nat \<Rightarrow> heap \<Rightarrow> ref \<Rightarrow> bool \<Rightarrow> ref list option" where
  "categories 0 h self recurse = None"
| "categories (Suc fuel) h self recurse =
     (case obj_at h self of
        Some (Category c) \<Rightarrow>
          concat_results (map (\<lambda>(k, v).
              case obj_at h v of
                Some (Category _) \<Rightarrow>
                  (if recurse then map_option ((#) v) (categories fuel h v True) else Some [v])
              | _ \<Rightarrow> Some [])
            (sorted_items (cat_data c)))
      | _ \<Rightarrow> None)"

text \<open>
  \<^verbatim>\<open>
  def tasks(self, recurse=True):
      for k, v in sorted(list(self.items())):
          if isinstance(v, Task):
              yield v
          if recurse and isinstance(v, Category):
              yield from v.tasks(True)
  \<close>
\<close>

fun tasks :: "nat \<Rightarrow> heap \<Rightarrow> ref \<Rightarrow> bool \<Rightarrow> ref list option" where
  "tasks 0 h self recurse = None"
| "tasks (Suc fuel) h self recurse =
     (case obj_at h self of
        Some (Category c) \<Rightarrow>
          concat_results (map (\<lambda>(k, v).
              case obj_at h v of
                Some (Task _) \<Rightarrow> Some [v]
              | Some (Category _) \<Rightarrow> (if recurse then tasks fuel h v True else Some [])
              | _ \<Rightarrow> Some [])
            (sorted_items (cat_data c)))
      | _ \<Rightarrow> None)"

text \<open>\<^verbatim>\<open>t.mins or 0\<close>: a duration that is \<^verbatim>\<open>None\<close> or zero counts as 0.\<close>

definition mins_or_0 :: "heap \<Rightarrow> ref \<Rightarrow> int" where
  "mins_or_0 h t =
     (case obj_at h t of
        Some (Task tk) \<Rightarrow> (case task_mins tk of None \<Rightarrow> 0 | Some m \<Rightarrow> if m = 0 then 0 else m)
      | _ \<Rightarrow> 0)"

text \<open>\<^verbatim>\<open>return sum(t.mins or 0 for t in self.tasks(recurse))\<close>\<close>

definition total_mins :: "nat \<Rightarrow> heap \<Rightarrow> ref \<Rightarrow> bool \<Rightarrow> int option" where
  "total_mins fuel h self recurse =
     map_option (\<lambda>ts. sum_list (map (mins_or_0 h) ts)) (tasks fuel h self recurse)"

text \<open>\<^verbatim>\<open>del container[key]\<close>, on a category or on the root mapping.\<close>

definition del_item :: "ref \<Rightarrow> string \<Rightarrow> heap \<Rightarrow> (error + unit) \<times> heap" where
  "del_item p k h =
     (case obj_at h p of
        Some (Category c) \<Rightarrow>
          if k \<in> set (keys (cat_data c))
          then (Inr (), h[p := Category (c\<lparr>cat_data := AList.delete k (cat_data c)\<rparr>)])
          else (Inl KeyError, h)
      | Some (RootMapping d) \<Rightarrow>
          if k \<in> set (keys d)
          then (Inr (), h[p := RootMapping (AList.delete k d)])
          else (Inl KeyError, h)
      | _ \<Rightarrow> (Inl TypeError, h))"

text \<open>
  \<^verbatim>\<open>
  def delete(self, recurse=False):
      if self.__parent__ is None:
          raise Exception("Cannot delete category without parent")
      if self.keys() and not recurse:
          raise Exception("Cannot delete Category {} without deleting children".format(self.id))
      del self.__parent__[self.id]
  \<close>
\<close>

definition Category_delete :: "ref \<Rightarrow> bool \<Rightarrow> heap \<Rightarrow> (error + unit) \<times> heap" where
  "Category_delete self recurse h =
     (case obj_at h self of
        Some (Category c) \<Rightarrow>
          (case cat_parent c of
             None \<Rightarrow> (Inl NoParent, h)
           | Some p \<Rightarrow>
               if keys (cat_data c) \<noteq> [] \<and> \<not> recurse then (Inl NotEmpty, h)
               else del_item p (cat_id c) h)
      | _ \<Rightarrow> (Inl AttributeError, h))"

text \<open>
  \<^verbatim>\<open>
  def delete(self):
      if self.__parent__ is None:
          raise Exception("Cannot delete task without parent")
      del self.__parent__[self.id]
  \<close>
\<close>

definition Task_delete :: "ref \<Rightarrow> heap \<Rightarrow> (error + unit) \<times> heap" where
  "Task_delete self h =
     (case obj_at h self of
        Some (Task t) \<Rightarrow>
          (case task_parent t of
             None \<Rightarrow> (Inl NoParent, h)
           | Some p \<Rightarrow> del_item p (task_id t) h)
      | _ \<Rightarrow> (Inl AttributeError, h))"

text \<open>
  The call \<^verbatim>\<open>obj.delete()\<close> (no keyword) or \<^verbatim>\<open>obj.delete(recurse=b)\<close>: the method is chosen by
  the class of the object, and Python binds the arguments to the parameters of that method.
  \<^verbatim>\<open>Category.delete\<close> has the parameter \<^verbatim>\<open>recurse\<close> with default \<^verbatim>\<open>False\<close>;
  \<^verbatim>\<open>Task.delete\<close> has no such parameter, so a call that passes it raises \<^verbatim>\<open>TypeError\<close>
  before the body runs.
\<close>

definition call_delete :: "ref \<Rightarrow> bool option \<Rightarrow> heap \<Rightarrow> (error + unit) \<times> heap" where
  "call_delete ob kw_recurse h =
     (case obj_at h ob of
        Some (Category _) \<Rightarrow>
          Category_delete ob (case kw_recurse of None \<Rightarrow> False | Some b \<Rightarrow> b) h
      | Some (Task _) \<Rightarrow>
          (case kw_recurse of None \<Rightarrow> Task_delete ob h | Some b \<Rightarrow> (Inl TypeError, h))
      | _ \<Rightarrow> (Inl AttributeError, h))"

text \<open>
  \<^verbatim>\<open>TrackerCmd.do_rm\<close> (timetracker/scripts/tracker.py), after the path has been resolved to
  the object \<open>ob\<close>:
  \<^verbatim>\<open>
  if obj is self.root:
      raise ValueError("Cannot delete root")
  obj.delete(recurse=recurse)
  \<close>
\<close>

definition do_rm :: "ref \<Rightarrow> ref \<Rightarrow> bool \<Rightarrow> heap \<Rightarrow> (error + unit) \<times> heap" where
  "do_rm root ob recurse h =
     (if ob = root then (Inl CannotDeleteRoot, h) else call_delete ob (Some recurse) h)"

subsection \<open>Vocabulary for the properties\<close>

text \<open>\<^verbatim>\<open>isinstance(v, Category)\<close> and \<^verbatim>\<open>isinstance(v, Task)\<close> for the object behind a reference.\<close>

definition is_category :: "heap \<Rightarrow> ref \<Rightarrow> bool" where
  "is_category h v = (case obj_at h v of Some (Category c) \<Rightarrow> True | _ \<Rightarrow> False)"

definition is_task :: "heap \<Rightarrow> ref \<Rightarrow> bool" where
  "is_task h v = (case obj_at h v of Some (Task t) \<Rightarrow> True | _ \<Rightarrow> False)"

text \<open>The attribute \<^verbatim>\<open>id\<close> of the node behind a reference; the root mapping has none.\<close>

definition node_id :: "heap \<Rightarrow> ref \<Rightarrow> string option" where
  "node_id h v =
     (case obj_at h v of
        Some (Category c) \<Rightarrow> Some (cat_id c)
      | Some (Task t) \<Rightarrow> Some (task_id t)
      | _ \<Rightarrow> None)"

text \<open>
  The state of a category's dictionary that the methods maintain: the keys are distinct
  (it is a dictionary) and every child is stored under its own id. A new category, whose
  dictionary is empty, is in this state.
\<close>

definition children_wf :: "heap \<Rightarrow> ref \<Rightarrow> bool" where
  "children_wf h self =
     (case obj_at h self of
        Some (Category c) \<Rightarrow>
          distinct (keys (cat_data c)) \<and> (\<forall>(k, v) \<in> set (cat_data c). node_id h v = Some k)
      | _ \<Rightarrow> False)"



text \<open>Both nodes have an id, and the first id is smaller than the second.\<close>

definition id_less :: "heap \<Rightarrow> ref \<Rightarrow> ref \<Rightarrow> bool" where
  "id_less h a b = (case (node_id h a, node_id h b) of (Some i, Some j) \<Rightarrow> i < j | _ \<Rightarrow> False)"




text \<open>
  The shape of what lies under a node of the store: a task with its duration, or a category
  with the shapes of its children in dictionary order. \<open>represents h t r\<close> says that the
  node behind \<open>r\<close> unfolds to the finite tree \<open>t\<close>; \<open>tree_tasks\<close> lists the durations of
  all the tasks of a tree, and \<open>depth\<close> is the nesting depth of categories.
\<close>

datatype tree = TaskT "int option" | CategoryT "tree list"

lemma list_all2_cong_set [fundef_cong]:
  assumes "xs = xs'" and "ys = ys'"
    and "\<And>x y. x \<in> set xs' \<Longrightarrow> y \<in> set ys' \<Longrightarrow> P x y = Q x y"
  shows "list_all2 P xs ys = list_all2 Q xs' ys'"
  using assms by (auto simp: list_all2_conv_all_nth)

fun represents :: "heap \<Rightarrow> tree \<Rightarrow> ref \<Rightarrow> bool" where
  "represents h (TaskT m) r =
     (case obj_at h r of Some (Task t) \<Rightarrow> task_mins t = m | _ \<Rightarrow> False)"
| "represents h (CategoryT ts) r =
     (case obj_at h r of
        Some (Category c) \<Rightarrow> list_all2 (\<lambda>s kv. represents h s (snd kv)) ts (cat_data c)
      | _ \<Rightarrow> False)"

fun tree_tasks :: "tree \<Rightarrow> int option list" where
  "tree_tasks (TaskT m) = [m]"
| "tree_tasks (CategoryT ts) = concat (map tree_tasks ts)"

fun depth :: "tree \<Rightarrow> nat" where
  "depth (TaskT m) = 0"
| "depth (CategoryT ts) = Suc (foldr max (map depth ts) 0)"

text \<open>What a task's duration adds to a total: an unset duration adds 0.\<close>

definition mins_value :: "int option \<Rightarrow> int" where
  "mins_value m = (case m of None \<Rightarrow> 0 | Some n \<Rightarrow> n)"

subsection \<open>Example stores\<close>


text \<open>The root, the category \<^verbatim>\<open>work\<close> in it, and the task \<^verbatim>\<open>design\<close> in \<^verbatim>\<open>work\<close>.\<close>

definition tree3 :: heap where
  "tree3 =
     [RootMapping [(''work'', 1)],
      Category \<lparr>cat_parent = Some 0, cat_id = ''work'', cat_title = ''Work'',
                 cat_description = '''', cat_data = [(''design'', 2)]\<rparr>,
      Task \<lparr>task_parent = Some 1, task_id = ''design'', task_title = ''Design'',
             task_description = '''', task_mins = Some 90\<rparr>]"

text \<open>
  A category \<^verbatim>\<open>work\<close> whose children were added in the order \<^verbatim>\<open>projects\<close> (a category holding
  the task \<^verbatim>\<open>design\<close>), \<^verbatim>\<open>zeta\<close> (a task), \<^verbatim>\<open>aaa\<close> (a task without duration), \<^verbatim>\<open>admin\<close> (an empty
  category).
\<close>

definition work_store :: heap where
  "work_store =
     [RootMapping [(''work'', 1)],
      Category \<lparr>cat_parent = Some 0, cat_id = ''work'', cat_title = ''Work'',
                 cat_description = '''',
                 cat_data = [(''projects'', 2), (''zeta'', 4), (''aaa'', 5), (''admin'', 6)]\<rparr>,
      Category \<lparr>cat_parent = Some 1, cat_id = ''projects'', cat_title = ''Projects'',
                 cat_description = '''', cat_data = [(''design'', 3)]\<rparr>,
      Task \<lparr>task_parent = Some 2, task_id = ''design'', task_title = ''Design'',
             task_description = '''', task_mins = Some 90\<rparr>,
      Task \<lparr>task_parent = Some 1, task_id = ''zeta'', task_title = ''Zeta'',
             task_description = '''', task_mins = Some 30\<rparr>,
      Task \<lparr>task_parent = Some 1, task_id = ''aaa'', task_title = ''Aaa'',
             task_description = '''', task_mins = None\<rparr>,
      Category \<lparr>cat_parent = Some 1, cat_id = ''admin'', cat_title = ''Admin'',
                 cat_description = '''', cat_data = []\<rparr>]"

section \<open>Properties of the node model\<close>

subsection \<open>Adding nodes\<close>

lemma update_fresh_key: "k \<notin> set (keys d) \<Longrightarrow> AList.update k v d = d @ [(k, v)]"
  by (induction d) (auto simp: keys_def)

text \<open>
  Claim C1, as stated, fails: a negative integer is a duration that is not a non-negative
  integer, and \<open>add_task\<close> accepts it and inserts the task.
\<close>

theorem add_task_negative_mins_accepted:
  "add_task 0 ''Design'' '''' None (PyInt (- 5)) [Category (Category_init ''work'' ''Work'' '''' None)] =
     (Inr 1,
      [Category \<lparr>cat_parent = None, cat_id = ''work'', cat_title = ''Work'',
                 cat_description = '''', cat_data = [(''design'', 1)]\<rparr>,
       Task \<lparr>task_parent = Some 0, task_id = ''design'', task_title = ''Design'',
             task_description = '''', task_mins = Some (- 5)\<rparr>])"
  by (simp add: add_task_def obj_at_def Category_init_def choose_id_def keys_def Task_init_def
      isinstance_int_def store_child_def slugify_unique_def slugify_unique_loop.simps
      slugify_def strip_dash_def lower_char_def is_alnum_def char_of_def bit_0)

text \<open>
  Claim C1, amended. On a category, \<open>add_task\<close> with a duration that is neither unset nor an
  integer fails and leaves the store unchanged, so no task is inserted: with \<open>DuplicateId\<close>
  when an explicit id is already a key of the category (that check comes first), with
  \<open>InvalidDuration\<close> otherwise. With an unset duration or any integer, negative ones
  included, \<open>add_task\<close> never fails with \<open>InvalidDuration\<close>.
\<close>

theorem add_task_duration_check:
  assumes "obj_at h self = Some (Category c)"
  shows "add_task self title description ident (PyOther x) h =
           (Inl (case ident of
                   None \<Rightarrow> InvalidDuration
                 | Some i \<Rightarrow> if i \<in> set (keys (cat_data c)) then DuplicateId else InvalidDuration), h)
       \<and> fst (add_task self title description ident PyNone h) \<noteq> Inl InvalidDuration
       \<and> fst (add_task self title description ident (PyInt n) h) \<noteq> Inl InvalidDuration"
  using assms
  by (auto simp: add_task_def choose_id_def Task_init_def isinstance_int_def store_child_def Let_def
      split: option.splits sum.splits)

theorem add_task_duration_check_witness:
  "obj_at [Category (Category_init ''work'' ''Work'' '''' None)] 0 =
     Some (Category (Category_init ''work'' ''Work'' '''' None)) \<and>
   add_task 0 ''Design'' '''' None (PyOther ''ninety'') [Category (Category_init ''work'' ''Work'' '''' None)] =
     (Inl InvalidDuration, [Category (Category_init ''work'' ''Work'' '''' None)])"
proof -
  have a: "obj_at [Category (Category_init ''work'' ''Work'' '''' None)] 0 =
     Some (Category (Category_init ''work'' ''Work'' '''' None))"
    by (simp add: obj_at_def)
  show ?thesis
    using a add_task_duration_check [OF a, of "''Design''" "''''" None "''ninety''"]
    by simp
qed

text \<open>
  Claim C10. An explicit id is used exactly as given: when it is already a key of the
  category the call fails with \<open>DuplicateId\<close> and the store is unchanged; otherwise the new
  node carries the id unchanged and is stored under that very key, whatever characters the
  id has (for \<open>add_task\<close>, given a duration that is unset or an integer).
\<close>

theorem explicit_id_verbatim:
  assumes "obj_at h self = Some (Category c)"
  shows "add_category self title description (Some i) h =
           (if i \<in> set (keys (cat_data c)) then (Inl DuplicateId, h)
            else (Inr (length h),
                  (h @ [Category \<lparr>cat_parent = Some self, cat_id = i, cat_title = title,
                                    cat_description = description, cat_data = []\<rparr>])
                    [self := Category (c\<lparr>cat_data := cat_data c @ [(i, length h)]\<rparr>)]))
       \<and> (mins = PyNone \<or> mins = PyInt n \<longrightarrow>
           add_task self title description (Some i) mins h =
             (if i \<in> set (keys (cat_data c)) then (Inl DuplicateId, h)
              else (Inr (length h),
                    (h @ [Task \<lparr>task_parent = Some self, task_id = i, task_title = title,
                                 task_description = description,
                                 task_mins = (if mins = PyNone then None else Some n)\<rparr>])
                      [self := Category (c\<lparr>cat_data := cat_data c @ [(i, length h)]\<rparr>)])))"
  using assms
  by (auto simp: add_category_def add_task_def choose_id_def Task_init_def Category_init_def
      isinstance_int_def store_child_def Let_def update_fresh_key)

theorem explicit_id_verbatim_witness:
  "obj_at tree3 1 = Some (Category \<lparr>cat_parent = Some 0, cat_id = ''work'', cat_title = ''Work'',
                 cat_description = '''', cat_data = [(''design'', 2)]\<rparr>) \<and>
   add_category 1 ''Some Title'' '''' (Some ''My.Id X'') tree3 =
     (Inr 3,
      [RootMapping [(''work'', 1)],
       Category \<lparr>cat_parent = Some 0, cat_id = ''work'', cat_title = ''Work'',
                 cat_description = '''', cat_data = [(''design'', 2), (''My.Id X'', 3)]\<rparr>,
       Task \<lparr>task_parent = Some 1, task_id = ''design'', task_title = ''Design'',
             task_description = '''', task_mins = Some 90\<rparr>,
       Category \<lparr>cat_parent = Some 1, cat_id = ''My.Id X'', cat_title = ''Some Title'',
                 cat_description = '''', cat_data = []\<rparr>]) \<and>
   add_task 1 ''Some Title'' '''' (Some '''') PyNone tree3 =
     (Inr 3,
      [RootMapping [(''work'', 1)],
       Category \<lparr>cat_parent = Some 0, cat_id = ''work'', cat_title = ''Work'',
                 cat_description = '''', cat_data = [(''design'', 2), ('''', 3)]\<rparr>,
       Task \<lparr>task_parent = Some 1, task_id = ''design'', task_title = ''Design'',
             task_description = '''', task_mins = Some 90\<rparr>,
       Task \<lparr>task_parent = Some 1, task_id = '''', task_title = ''Some Title'',
             task_description = '''', task_mins = None\<rparr>]) \<and>
   add_category 1 ''Some Title'' '''' (Some ''design'') tree3 = (Inl DuplicateId, tree3)"
proof -
  let ?c = "\<lparr>cat_parent = Some 0, cat_id = ''work'', cat_title = ''Work'',
                 cat_description = '''', cat_data = [(''design'', 2)]\<rparr>"
  have a: "obj_at tree3 1 = Some (Category ?c)" by (simp add: obj_at_def tree3_def)
  have b: "length tree3 = 3" by (simp add: tree3_def)
  show ?thesis
    using a
      explicit_id_verbatim [OF a, where mins = PyNone and n = 0 and title = "''Some Title''"
        and description = "''''" and i = "''My.Id X''"]
      explicit_id_verbatim [OF a, where mins = PyNone and n = 0 and title = "''Some Title''"
        and description = "''''" and i = "''''"]
      explicit_id_verbatim [OF a, where mins = PyNone and n = 0 and title = "''Some Title''"
        and description = "''''" and i = "''design''"]
    by (simp add: b keys_def) (simp add: tree3_def)
qed

subsection \<open>Sequences of additions\<close>








subsection \<open>Listing the children of a category\<close>

lemma those_all_Some: "those (map (\<lambda>x. Some (g x)) xs) = Some (map g xs)"
  by (induction xs) simp_all

lemma concat_results_all_Some:
  "concat_results (map (\<lambda>x. Some (g x)) xs) = Some (concat (map g xs))"
  by (simp add: concat_results_def those_all_Some)

lemma concat_singletons:
  "concat (map (\<lambda>(k, v). if P v then [v] else []) xs) = map snd (filter (\<lambda>(k, v). P v) xs)"
  by (induction xs) auto

lemma concat_results_map:
  assumes "\<And>x. x \<in> set xs \<Longrightarrow> f x = Some (g x)"
  shows "concat_results (map f xs) = Some (concat (map g xs))"
proof -
  have "map f xs = map (\<lambda>x. Some (g x)) xs"
    using assms by (simp cong: map_cong)
  then show ?thesis by (simp only: concat_results_all_Some)
qed

lemma categories_direct:
  assumes "obj_at h self = Some (Category c)"
  shows "categories (Suc fuel) h self False =
           Some (map snd (filter (\<lambda>(k, v). is_category h v) (sorted_items (cat_data c))))"
proof -
  let ?F = "\<lambda>(k, v). case obj_at h v of
            Some (Category x) \<Rightarrow> (if False then map_option ((#) v) (categories fuel h v True) else Some [v])
          | _ \<Rightarrow> Some []"
  have "categories (Suc fuel) h self False = concat_results (map ?F (sorted_items (cat_data c)))"
    by (simp only: categories.simps assms option.case obj.case)
  also have "\<dots> = Some (concat (map (\<lambda>(k, v). if is_category h v then [v] else [])
                                  (sorted_items (cat_data c))))"
    by (rule concat_results_map) (auto simp: is_category_def split: option.splits obj.splits)
  finally show ?thesis by (simp only: concat_singletons)
qed

lemma tasks_direct:
  assumes "obj_at h self = Some (Category c)"
  shows "tasks (Suc fuel) h self False =
           Some (map snd (filter (\<lambda>(k, v). is_task h v) (sorted_items (cat_data c))))"
proof -
  let ?F = "\<lambda>(k, v). case obj_at h v of
            Some (Task x) \<Rightarrow> Some [v]
          | Some (Category x) \<Rightarrow> (if False then tasks fuel h v True else Some [])
          | _ \<Rightarrow> Some []"
  have "tasks (Suc fuel) h self False = concat_results (map ?F (sorted_items (cat_data c)))"
    by (simp only: tasks.simps assms option.case obj.case)
  also have "\<dots> = Some (concat (map (\<lambda>(k, v). if is_task h v then [v] else [])
                                  (sorted_items (cat_data c))))"
    by (rule concat_results_map) (auto simp: is_task_def split: option.splits obj.splits)
  finally show ?thesis by (simp only: concat_singletons)
qed

lemma sorted_items_strict:
  "distinct (keys d) \<Longrightarrow> sorted_wrt (\<lambda>x y. fst x < fst y) (sorted_items d)"
proof -
  assume "distinct (keys d)"
  then have "distinct (map fst (sort_key fst d))"
    by (simp add: keys_def distinct_map)
  moreover have "sorted (map fst (sort_key fst d))"
    by (rule sorted_sort_key)
  ultimately have "sorted_wrt (<) (map fst (sort_key fst d))"
    by (simp add: strict_sorted_iff)
  then show ?thesis
    by (simp add: sorted_items_def sorted_wrt_map)
qed

lemma listing_sorted:
  assumes wf: "distinct (keys d)" "\<forall>(k, v) \<in> set d. node_id h v = Some k"
  shows "sorted_wrt (id_less h) (map snd (filter Q (sorted_items d)))"
proof -
  have "sorted_wrt (\<lambda>x y. fst x < fst y) (filter Q (sorted_items d))"
    using sorted_items_strict [OF wf(1)] by (rule sorted_wrt_filter)
  then have "sorted_wrt (\<lambda>x y. id_less h (snd x) (snd y)) (filter Q (sorted_items d))"
  proof (rule sorted_wrt_mono_rel [rotated])
    fix x y
    assume "x \<in> set (filter Q (sorted_items d))" and "y \<in> set (filter Q (sorted_items d))"
      and "fst x < fst y"
    then show "id_less h (snd x) (snd y)"
      using wf(2) by (auto simp: id_less_def sorted_items_def case_prod_beta)
  qed
  then show ?thesis by (simp add: sorted_wrt_map)
qed

text \<open>
  Claim C5. For a category whose dictionary is in its maintained state, in whatever order
  the children were inserted, the non-recursive listings return; \<open>categories\<close> yields exactly
  the children that are categories and \<open>tasks\<close> exactly the children that are tasks, each
  listing in strictly ascending order of the nodes' ids.
\<close>

theorem direct_listings_sorted_by_id:
  assumes "obj_at h self = Some (Category c)" and "children_wf h self"
  shows "\<exists>cs ts.
           categories (Suc fuel) h self False = Some cs \<and>
           tasks (Suc fuel) h self False = Some ts \<and>
           set cs = {v \<in> snd ` set (cat_data c). is_category h v} \<and>
           set ts = {v \<in> snd ` set (cat_data c). is_task h v} \<and>
           sorted_wrt (id_less h) cs \<and> sorted_wrt (id_less h) ts"
proof -
  from assms have d: "distinct (keys (cat_data c))"
    and ids: "\<forall>(k, v) \<in> set (cat_data c). node_id h v = Some k"
    by (simp_all add: children_wf_def)
  let ?cs = "map snd (filter (\<lambda>(k, v). is_category h v) (sorted_items (cat_data c)))"
  let ?ts = "map snd (filter (\<lambda>(k, v). is_task h v) (sorted_items (cat_data c)))"
  have "categories (Suc fuel) h self False = Some ?cs"
    using assms(1) by (rule categories_direct)
  moreover have "tasks (Suc fuel) h self False = Some ?ts"
    using assms(1) by (rule tasks_direct)
  moreover have "set ?cs = {v \<in> snd ` set (cat_data c). is_category h v}"
    by (force simp: sorted_items_def)
  moreover have "set ?ts = {v \<in> snd ` set (cat_data c). is_task h v}"
    by (force simp: sorted_items_def)
  moreover have "sorted_wrt (id_less h) ?cs" using d ids by (rule listing_sorted)
  moreover have "sorted_wrt (id_less h) ?ts" using d ids by (rule listing_sorted)
  ultimately show ?thesis by blast
qed

theorem direct_listings_sorted_by_id_witness:
  "children_wf work_store 1 \<and>
   categories (Suc 0) work_store 1 False = Some [6, 2] \<and>
   tasks (Suc 0) work_store 1 False = Some [5, 4] \<and>
   (\<exists>cs ts.
      categories (Suc 0) work_store 1 False = Some cs \<and>
      tasks (Suc 0) work_store 1 False = Some ts \<and>
      set cs = {v \<in> snd ` set [(''projects'', 2), (''zeta'', 4), (''aaa'', 5), (''admin'', 6)].
                  is_category work_store v} \<and>
      set ts = {v \<in> snd ` set [(''projects'', 2), (''zeta'', 4), (''aaa'', 5), (''admin'', 6)].
                  is_task work_store v} \<and>
      sorted_wrt (id_less work_store) cs \<and> sorted_wrt (id_less work_store) ts)"
proof -
  let ?c = "\<lparr>cat_parent = Some 0, cat_id = ''work'', cat_title = ''Work'',
             cat_description = '''',
             cat_data = [(''projects'', 2), (''zeta'', 4), (''aaa'', 5), (''admin'', 6)]\<rparr>"
  have a: "obj_at work_store 1 = Some (Category ?c)"
    by (simp add: obj_at_def work_store_def)
  have wf: "children_wf work_store 1"
    by (simp add: children_wf_def obj_at_def work_store_def keys_def node_id_def)
  have cs: "categories (Suc 0) work_store 1 False = Some [6, 2]"
    by (simp add: obj_at_def work_store_def sorted_items_def concat_results_def)
  have ts: "tasks (Suc 0) work_store 1 False = Some [5, 4]"
    by (simp add: obj_at_def work_store_def sorted_items_def concat_results_def)
  from direct_listings_sorted_by_id [OF a wf, of 0] wf cs ts show ?thesis
    by simp
qed

subsection \<open>Totals over a subtree\<close>

lemma foldr_max_ge: "x \<in> set xs \<Longrightarrow> x \<le> foldr max xs (0::nat)"
  by (induction xs) auto

lemma sum_list_insort_key:
  "sum_list (map f (insort_key k x xs)) = (f x :: int) + sum_list (map f xs)"
  by (induction xs) auto

lemma sum_list_sort_key: "sum_list (map f (sort_key k xs)) = (sum_list (map f xs) :: int)"
  by (induction xs) (auto simp: sum_list_insort_key)

lemma concat_results_sum:
  assumes "\<forall>x \<in> set xs. F x \<noteq> None"
  shows "\<exists>rs. concat_results (map F xs) = Some rs \<and>
           sum_list (map w rs) =
             (sum_list (map (\<lambda>x. case F x of Some r \<Rightarrow> sum_list (map w r) | None \<Rightarrow> 0) xs) :: int)"
  using assms
proof (induction xs)
  case Nil
  then show ?case by (simp add: concat_results_def)
next
  case (Cons x xs)
  then obtain rs where rs: "concat_results (map F xs) = Some rs"
    and s: "sum_list (map w rs) =
             sum_list (map (\<lambda>x. case F x of Some r \<Rightarrow> sum_list (map w r) | None \<Rightarrow> 0) xs)"
    by auto
  from Cons.prems obtain r where r: "F x = Some r" by auto
  from rs obtain rss where rss: "those (map F xs) = Some rss" and c: "rs = concat rss"
    by (auto simp: concat_results_def)
  have "concat_results (map F (x # xs)) = Some (r @ rs)"
    by (simp add: concat_results_def r rss c)
  moreover have "sum_list (map w (r @ rs)) =
      sum_list (map (\<lambda>x. case F x of Some r \<Rightarrow> sum_list (map w r) | None \<Rightarrow> 0) (x # xs))"
    by (simp add: r s)
  ultimately show ?case by blast
qed


lemma list_all2_sum:
  assumes "list_all2 (\<lambda>s kv. val kv = g s) ts d"
  shows "sum_list (map val d) = (sum_list (map g ts) :: int)"
  using assms by (induction rule: list_all2_induct) auto

lemma sum_list_tree_tasks:
  "sum_list (map f (concat (map tree_tasks ts))) =
     (sum_list (map (\<lambda>s. sum_list (map f (tree_tasks s))) ts) :: int)"
  by (induction ts) auto

lemma tasks_total_tree:
  assumes "represents h t r" and "depth t \<le> fuel"
  shows "case t of
           TaskT m \<Rightarrow> True
         | CategoryT ts \<Rightarrow>
             \<exists>rs. tasks fuel h r True = Some rs \<and>
               sum_list (map (mins_or_0 h) rs) = sum_list (map mins_value (tree_tasks t))"
  using assms
proof (induction t arbitrary: r fuel)
  case (TaskT m)
  show ?case by simp
next
  case (CategoryT ts)
  from CategoryT.prems(1) obtain c where c: "obj_at h r = Some (Category c)"
    and all: "list_all2 (\<lambda>s kv. represents h s (snd kv)) ts (cat_data c)"
    by (auto split: option.splits obj.splits)
  from CategoryT.prems(2) obtain n where fuel: "fuel = Suc n"
    and n: "foldr max (map depth ts) 0 \<le> n"
    by (cases fuel) auto
  define F where "F = (\<lambda>(k :: string, v). case obj_at h v of
              Some (Task x) \<Rightarrow> Some [v]
            | Some (Category x) \<Rightarrow> (if True then tasks n h v True else Some [])
            | _ \<Rightarrow> Some [])"
  define val where
    "val = (\<lambda>kv. case F kv of Some rs \<Rightarrow> sum_list (map (mins_or_0 h) rs) | None \<Rightarrow> 0)"
  let ?g = "\<lambda>s. sum_list (map mins_value (tree_tasks s))"
  have child: "F kv \<noteq> None \<and> val kv = ?g s"
    if s: "s \<in> set ts" and rep: "represents h s (snd kv)" for s kv
  proof (cases s)
    case (TaskT m)
    with rep obtain t where "obj_at h (snd kv) = Some (Task t)" and "task_mins t = m"
      by (auto split: option.splits obj.splits)
    then show ?thesis
      using TaskT
      by (cases kv) (auto simp: F_def val_def mins_or_0_def mins_value_def split: option.splits)
  next
    case (CategoryT ts')
    with rep obtain c' where c': "obj_at h (snd kv) = Some (Category c')"
      by (auto split: option.splits obj.splits)
    have "depth s \<le> n"
      using s n foldr_max_ge [of "depth s" "map depth ts"] by auto
    from CategoryT.IH [OF s rep this] obtain rs where "tasks n h (snd kv) True = Some rs"
      and "sum_list (map (mins_or_0 h) rs) = ?g s"
      using \<open>s = CategoryT ts'\<close> by auto
    then show ?thesis
      using c' by (cases kv) (auto simp: F_def val_def)
  qed
  have pairs: "list_all2 (\<lambda>s kv. F kv \<noteq> None \<and> val kv = ?g s) ts (cat_data c)"
  proof (rule list_all2_all_nthI)
    show "length ts = length (cat_data c)"
      using all by (rule list_all2_lengthD)
  next
    fix i
    assume i: "i < length ts"
    then have "ts ! i \<in> set ts" by simp
    moreover have "represents h (ts ! i) (snd (cat_data c ! i))"
      using all i by (rule list_all2_nthD)
    ultimately show "F (cat_data c ! i) \<noteq> None \<and> val (cat_data c ! i) = ?g (ts ! i)"
      by (rule child)
  qed
  have nonnone: "\<forall>kv \<in> set (sorted_items (cat_data c)). F kv \<noteq> None"
  proof
    fix kv
    assume "kv \<in> set (sorted_items (cat_data c))"
    then have "kv \<in> set (cat_data c)" by (simp add: sorted_items_def)
    then obtain i where "i < length (cat_data c)" and "cat_data c ! i = kv"
      by (auto simp: in_set_conv_nth)
    then show "F kv \<noteq> None"
      using list_all2_nthD2 [OF pairs, of i] by auto
  qed
  from concat_results_sum [OF nonnone, of "mins_or_0 h"] obtain rs where
    rs: "concat_results (map F (sorted_items (cat_data c))) = Some rs" and
    sum: "sum_list (map (mins_or_0 h) rs) = sum_list (map val (sorted_items (cat_data c)))"
    unfolding val_def by blast
  have run: "tasks fuel h r True = concat_results (map F (sorted_items (cat_data c)))"
    unfolding fuel F_def by (simp only: tasks.simps c option.case obj.case)
  have perm: "sum_list (map val (sorted_items (cat_data c))) = sum_list (map val (cat_data c))"
    unfolding sorted_items_def by (rule sum_list_sort_key)
  have "list_all2 (\<lambda>s kv. val kv = ?g s) ts (cat_data c)"
    using pairs by (rule list_all2_mono) simp
  then have children: "sum_list (map val (cat_data c)) = sum_list (map ?g ts)"
    by (rule list_all2_sum)
  have whole: "?g (CategoryT ts) = sum_list (map ?g ts)"
    by (simp add: sum_list_tree_tasks)
  from run rs sum perm children whole show ?case
    by simp
qed

text \<open>
  Claim C6. For a category that unfolds to a finite tree, the recursive total returns as
  soon as the fuel reaches the depth of the tree, and it is the sum, over all the tasks of
  the tree, of their durations, an unset duration counting as 0.
\<close>

theorem total_mins_sums_all_tasks:
  assumes "represents h (CategoryT ts) container" and "depth (CategoryT ts) \<le> fuel"
  shows "total_mins fuel h container True =
           Some (sum_list (map mins_value (tree_tasks (CategoryT ts))))"
  using tasks_total_tree [OF assms] by (auto simp: total_mins_def)

theorem total_mins_sums_all_tasks_witness:
  "represents work_store
     (CategoryT [CategoryT [TaskT (Some 90)], TaskT (Some 30), TaskT None, CategoryT []]) 1 \<and>
   depth (CategoryT [CategoryT [TaskT (Some 90)], TaskT (Some 30), TaskT None, CategoryT []]) \<le> 2 \<and>
   total_mins 2 work_store 1 True = Some 120"
proof -
  let ?ts = "[CategoryT [TaskT (Some 90)], TaskT (Some 30), TaskT None, CategoryT []]"
  have a: "represents work_store (CategoryT ?ts) 1"
    by (simp add: work_store_def obj_at_def)
  have b: "depth (CategoryT ?ts) \<le> 2"
    by simp
  from total_mins_sums_all_tasks [OF a b] a b show ?thesis
    by (simp add: mins_value_def)
qed

subsection \<open>Deleting nodes\<close>

text \<open>
  Claim C7. A category that has a parent and at least one child is not deleted without
  \<open>recurse\<close>: the method, and the shell command that calls it, fail with \<open>NotEmpty\<close> and
  return the store exactly as it was.
\<close>

theorem category_delete_not_empty:
  assumes "obj_at h self = Some (Category c)" and "cat_parent c = Some p" and "cat_data c \<noteq> []"
  shows "Category_delete self False h = (Inl NotEmpty, h) \<and>
         (self \<noteq> root \<longrightarrow> do_rm root self False h = (Inl NotEmpty, h))"
  using assms by (simp add: Category_delete_def do_rm_def call_delete_def keys_def)

theorem category_delete_not_empty_witness:
  "obj_at tree3 1 = Some (Category \<lparr>cat_parent = Some 0, cat_id = ''work'', cat_title = ''Work'',
                 cat_description = '''', cat_data = [(''design'', 2)]\<rparr>) \<and>
   Category_delete 1 False tree3 = (Inl NotEmpty, tree3) \<and> do_rm 0 1 False tree3 = (Inl NotEmpty, tree3)"
proof -
  let ?c = "\<lparr>cat_parent = Some 0, cat_id = ''work'', cat_title = ''Work'',
                 cat_description = '''', cat_data = [(''design'', 2)]\<rparr>"
  have a: "obj_at tree3 1 = Some (Category ?c)" by (simp add: obj_at_def tree3_def)
  have b: "cat_parent ?c = Some 0" by simp
  have c: "cat_data ?c \<noteq> []" by simp
  show ?thesis
    using a category_delete_not_empty [OF a b c, of 0] by simp
qed

text \<open>
  Claim C8. Deleting a task with a recursion flag is the call \<^verbatim>\<open>obj.delete(recurse=recurse)\<close>
  of \<^verbatim>\<open>do_rm\<close>. On the task \<^verbatim>\<open>design\<close>, which has a parent, it fails with \<open>TypeError\<close> for
  both values of the flag and the task stays in its parent, because \<^verbatim>\<open>Task.delete\<close> has no
  parameter \<^verbatim>\<open>recurse\<close>; the method called without the flag does remove the task.
\<close>

theorem do_rm_task_type_error:
  "do_rm 0 2 False tree3 = (Inl TypeError, tree3) \<and>
   do_rm 0 2 True tree3 = (Inl TypeError, tree3) \<and>
   Task_delete 2 tree3 =
     (Inr (), tree3[1 := Category \<lparr>cat_parent = Some 0, cat_id = ''work'', cat_title = ''Work'',
                 cat_description = '''', cat_data = []\<rparr>])"
  by (simp add: do_rm_def call_delete_def Task_delete_def del_item_def obj_at_def tree3_def keys_def)

end
